theory Spec2Isabelle
  imports Complex_Main "HOL-Library.Sublist" "HOL-Library.Log_Nat"
begin

section \<open>Shared process state of \<^verbatim>\<open>docker/server.py\<close>\<close>

text \<open>
  The gateway is single-threaded and cooperative: a handler runs without interruption
  between two \<^verbatim>\<open>await\<close>s. The module-level objects every handler mutates are
  collected in one record:
  \<^item> \<open>sem_value\<close>: the free slots of \<^verbatim>\<open>admission_sem = asyncio.Semaphore(MAX_INFLIGHT)\<close>
    (a semaphore that has handed a slot to a woken waiter counts it as taken);
  \<^item> \<open>admission_queue\<close>: the items of the unbounded \<^verbatim>\<open>asyncio.Queue()\<close>, oldest first;
  \<^item> the Prometheus series \<^verbatim>\<open>QUEUE_LENGTH\<close>, \<^verbatim>\<open>INFLIGHT\<close>, \<^verbatim>\<open>REQ_TOTAL\<close>,
    \<^verbatim>\<open>REQ_FAILED\<close>, \<^verbatim>\<open>TTFT_HIST\<close> (its observations, oldest first) and
    \<^verbatim>\<open>VLLM_INTERNAL_WAITING\<close>, each for the one label pair of this pod.
  \<^verbatim>\<open>asyncio.Semaphore\<close> refuses a negative initial value, so the capacity is a \<open>nat\<close>.
  The last gauge is set from values the engine hands over, which may be any float.
\<close>

datatype float64 = Finite real | PlusInf | MinusInf | NaN

record sys =
  sem_value :: nat
  admission_queue :: "int list"
  QUEUE_LENGTH :: int
  INFLIGHT :: int
  REQ_TOTAL :: nat
  REQ_FAILED :: nat
  TTFT_HIST :: "real list"
  VLLM_INTERNAL_WAITING :: float64

definition init :: "nat \<Rightarrow> sys" where
  "init MAX_INFLIGHT =
     \<lparr>sem_value = MAX_INFLIGHT, admission_queue = [], QUEUE_LENGTH = 0, INFLIGHT = 0,
      REQ_TOTAL = 0, REQ_FAILED = 0, TTFT_HIST = [], VLLM_INTERNAL_WAITING = Finite 0\<rparr>"

text \<open>An instance of \<^verbatim>\<open>Exception\<close>: the name of its class and its \<^verbatim>\<open>str()\<close>.\<close>

datatype exn = Exn (type_name: string) (message: string)

text \<open>
  How the wait for the next engine snapshot ends: the asynchronous generator is exhausted,
  it raises an \<^verbatim>\<open>Exception\<close>, or \<^verbatim>\<open>asyncio.CancelledError\<close> arrives because the
  caller went away.
\<close>

datatype ending = Exhausted | Raised exn | Cancelled

subsection \<open>\<^verbatim>\<open>admission_guard\<close>, block by block\<close>

text \<open>
  Lines 75-76: \<^verbatim>\<open>await admission_queue.put(1)\<close> (the queue is unbounded, so the put
  never suspends) and the gauge set to \<^verbatim>\<open>qsize()\<close>.
\<close>

definition guard_put :: "sys \<Rightarrow> sys" where
  "guard_put s =
     (let s1 = s\<lparr>admission_queue := admission_queue s @ [1]\<rparr>
      in s1\<lparr>QUEUE_LENGTH := int (length (admission_queue s1))\<rparr>)"

text \<open>
  Line 78: \<^verbatim>\<open>await admission_sem.acquire()\<close>. \<open>None\<close>: no slot is free and the
  caller stays suspended.
\<close>

definition sem_acquire :: "sys \<Rightarrow> sys option" where
  "sem_acquire s =
     (if 0 < sem_value s then Some (s\<lparr>sem_value := sem_value s - 1\<rparr>) else None)"

text \<open>
  Lines 80-87, which run without suspension once the slot is held: one item is taken off
  the queue (\<^verbatim>\<open>QueueEmpty\<close> is passed over), the gauge is set again and the in-flight
  gauge goes up.
\<close>

definition guard_enter :: "sys \<Rightarrow> sys" where
  "guard_enter s =
     (let s1 = (case admission_queue s of
                  [] \<Rightarrow> s
                | x # rest \<Rightarrow> s\<lparr>admission_queue := rest\<rparr>);
          s2 = s1\<lparr>QUEUE_LENGTH := int (length (admission_queue s1))\<rparr>
      in s2\<lparr>INFLIGHT := INFLIGHT s2 + 1\<rparr>)"

text \<open>
  Lines 90-93, the two \<^verbatim>\<open>finally\<close> blocks: they run however the body under
  \<^verbatim>\<open>async with\<close> is left, so the block does not look at the reason.
\<close>

definition guard_exit :: "sys \<Rightarrow> sys" where
  "guard_exit s =
     (let s1 = s\<lparr>INFLIGHT := INFLIGHT s - 1\<rparr>
      in s1\<lparr>sem_value := sem_value s1 + 1\<rparr>)"

text \<open>Line 130 / 166.\<close>

definition rpc_begin :: "sys \<Rightarrow> sys" where
  "rpc_begin s = s\<lparr>REQ_TOTAL := REQ_TOTAL s + 1\<rparr>"

text \<open>
  Lines 156-160 / 195-199, the effect of the handlers' \<^verbatim>\<open>except\<close> clauses on the
  shared state: only \<^verbatim>\<open>except Exception\<close> counts a failure.
\<close>

fun rpc_except :: "ending \<Rightarrow> sys \<Rightarrow> sys" where
  "rpc_except Exhausted s = s"
| "rpc_except Cancelled s = s"
| "rpc_except (Raised e) s = s\<lparr>REQ_FAILED := REQ_FAILED s + 1\<rparr>"

section \<open>Admission as a state machine over interleaved calls\<close>

text \<open>
  A call is in one of four phases: \<open>Queued\<close> (it has put its item and waits at line 78),
  \<open>Admitted\<close> (suspended inside the \<^verbatim>\<open>async with\<close> body), \<open>Abandoned\<close> (cancelled at
  line 78, which no \<^verbatim>\<open>try\<close> of the guard covers) and \<open>Done\<close> (the guard's generator
  has run its \<^verbatim>\<open>finally\<close> blocks and is finished). Calls are numbered in order of arrival.

  The events are the things that happen between two suspensions:
  \<^item> \<open>Arrive\<close>: a new call runs from its first line up to line 78;
  \<^item> \<open>Grant t\<close>: call \<open>t\<close> gets past line 78 and runs up to the \<^verbatim>\<open>yield\<close> of the guard;
  \<^item> \<open>End t e\<close>: the wait of call \<open>t\<close> ends with \<open>e\<close>. For an admitted call the guard is
    left and the handler's \<^verbatim>\<open>except\<close> clause runs. A queued call can only be cancelled.
    The generator behind a finished guard does not run its \<^verbatim>\<open>finally\<close> blocks again,
    so leaving a guard that is not entered changes nothing.
  An event that cannot happen in the current state leaves it as it is.
\<close>

datatype phase = Queued | Admitted | Abandoned | Done

datatype event = Arrive | Grant nat | End nat ending

type_synonym server = "sys \<times> phase list"

definition start :: "nat \<Rightarrow> server" where
  "start MAX_INFLIGHT = (init MAX_INFLIGHT, [])"

fun step :: "server \<Rightarrow> event \<Rightarrow> server" where
  "step (s, tasks) Arrive = (guard_put (rpc_begin s), tasks @ [Queued])"
| "step (s, tasks) (Grant t) =
     (if t < length tasks \<and> tasks ! t = Queued then
        (case sem_acquire s of
           None \<Rightarrow> (s, tasks)
         | Some s' \<Rightarrow> (guard_enter s', tasks[t := Admitted]))
      else (s, tasks))"
| "step (s, tasks) (End t e) =
     (if t < length tasks \<and> tasks ! t = Admitted then
        (rpc_except e (guard_exit s), tasks[t := Done])
      else if t < length tasks \<and> tasks ! t = Queued \<and> e = Cancelled then
        (rpc_except e s, tasks[t := Abandoned])
      else (s, tasks))"

definition run :: "server \<Rightarrow> event list \<Rightarrow> server" where
  "run = foldl step"

text \<open>
  The same blocks one assignment at a time: the shared state after each single write an
  event makes, in order. The metrics endpoint is served from a thread of its own, so
  these are the states a scrape can see between two suspensions.
\<close>

fun writes :: "server \<Rightarrow> event \<Rightarrow> sys list" where
  "writes (s, tasks) Arrive =
     (let s1 = s\<lparr>REQ_TOTAL := REQ_TOTAL s + 1\<rparr>;
          s2 = s1\<lparr>admission_queue := admission_queue s1 @ [1]\<rparr>;
          s3 = s2\<lparr>QUEUE_LENGTH := int (length (admission_queue s2))\<rparr>
      in [s1, s2, s3])"
| "writes (s, tasks) (Grant t) =
     (if t < length tasks \<and> tasks ! t = Queued then
        (case sem_acquire s of
           None \<Rightarrow> []
         | Some s1 \<Rightarrow>
             (let s2 = (case admission_queue s1 of
                          [] \<Rightarrow> s1
                        | x # rest \<Rightarrow> s1\<lparr>admission_queue := rest\<rparr>);
                  s3 = s2\<lparr>QUEUE_LENGTH := int (length (admission_queue s2))\<rparr>;
                  s4 = s3\<lparr>INFLIGHT := INFLIGHT s3 + 1\<rparr>
              in [s1, s2, s3, s4]))
      else [])"
| "writes (s, tasks) (End t e) =
     (if t < length tasks \<and> tasks ! t = Admitted then
        (let s1 = s\<lparr>INFLIGHT := INFLIGHT s - 1\<rparr>;
             s2 = s1\<lparr>sem_value := sem_value s1 + 1\<rparr>
         in [s1, s2, rpc_except e s2])
      else if t < length tasks \<and> tasks ! t = Queued \<and> e = Cancelled then [rpc_except e s]
      else [])"

text \<open>The calls that hold a slot, and the calls that wait for one.\<close>

definition admitted :: "server \<Rightarrow> nat" where
  "admitted sv = count_list (snd sv) Admitted"

definition waiting :: "server \<Rightarrow> nat" where
  "waiting sv = count_list (snd sv) Queued"

definition abandoned :: "server \<Rightarrow> nat" where
  "abandoned sv = count_list (snd sv) Abandoned"

text \<open>
  The releases of call \<open>t\<close> along a run: the events that end \<open>t\<close> and raise the
  semaphore's value.
\<close>

fun releases :: "server \<Rightarrow> event list \<Rightarrow> nat \<Rightarrow> nat" where
  "releases sv [] t = 0"
| "releases sv (ev # evs) t =
     (if (\<exists>e. ev = End t e) \<and> sem_value (fst (step sv ev)) = sem_value (fst sv) + 1
      then 1 else 0) + releases (step sv ev) evs t"

text \<open>Whether the guard of call \<open>t\<close> has been left: 1 if so, else 0.\<close>

definition finished :: "server \<Rightarrow> nat \<Rightarrow> nat" where
  "finished sv t = (if t < length (snd sv) \<and> snd sv ! t = Done then 1 else 0)"

text \<open>
  What every step keeps: slots are conserved, the in-flight gauge counts the admitted
  calls, and the queue holds one item for each call that waits or gave up waiting.
\<close>

definition inv :: "nat \<Rightarrow> server \<Rightarrow> bool" where
  "inv cap sv \<longleftrightarrow>
     sem_value (fst sv) + admitted sv = cap \<and>
     INFLIGHT (fst sv) = int (admitted sv) \<and>
     length (admission_queue (fst sv)) = waiting sv + abandoned sv \<and>
     QUEUE_LENGTH (fst sv) = int (length (admission_queue (fst sv)))"

section \<open>One call, from its first line to its last\<close>

subsection \<open>Messages, requests and the engine\<close>

text \<open>
  \<^verbatim>\<open>out.outputs\<close> is a list of completions; \<^verbatim>\<open>.text\<close> of a completion may be
  \<^verbatim>\<open>None\<close>. Strings are lists of characters, so \<open>length\<close> and \<open>drop\<close> are Python's
  \<^verbatim>\<open>len\<close> and \<^verbatim>\<open>s[n:]\<close>.
\<close>

datatype CompletionOutput = CompletionOutput (text_of: "string option")

datatype RequestOutput = RequestOutput (outputs: "CompletionOutput list")

record GenerateRequest =
  prompt :: string
  max_new_tokens :: int
  temperature :: real

datatype SamplingParams = SamplingParams (max_tokens: int) (sampling_temperature: real)

datatype GenerateReply = GenerateReply (reply_text: string)

datatype Token = Token (token_text: string) (is_last: bool)

datatype StatusCode = INTERNAL

text \<open>A handler returns a value, or leaves through \<^verbatim>\<open>context.abort(code, details)\<close>.\<close>

datatype 'a outcome = Return 'a | Abort StatusCode string

text \<open>
  \<^verbatim>\<open>self.engine.generate(prompt, params, request_id=...)\<close> is vLLM's: it is a parameter
  here. It gives the snapshots the asynchronous generator yields, in order, and how the
  generator ends after the last of them.
\<close>

type_synonym engine = "string \<Rightarrow> SamplingParams \<Rightarrow> string \<Rightarrow> RequestOutput list \<times> ending"

text \<open>
  What one call reads from outside the program:
  \<^item> \<open>request_hex\<close>: \<^verbatim>\<open>uuid.uuid4().hex\<close>;
  \<^item> \<open>t0\<close>: \<^verbatim>\<open>time.time()\<close> at line 138 / 175;
  \<^item> \<open>now i\<close>: what \<^verbatim>\<open>time.time()\<close> returns when the wait for the snapshot of index
    \<open>i\<close> is over: while that snapshot is handled or, for \<open>i\<close> the number of snapshots
    taken, when the wait ends without one and the handler leaves without suspending again
    (clock readings are taken as reals; the float subtraction and product keep sign and order);
  \<^item> \<open>cancel\<close>: \<open>Some k\<close> when the caller cancels while the handler is suspended having
    taken \<open>k\<close> snapshots from the engine; a handler that stays suspended at line 78 is
    reached by the cancellation there. \<open>None\<close> when the caller never cancels.
\<close>

record call =
  request_hex :: string
  t0 :: real
  now :: "nat \<Rightarrow> real"
  cancel :: "nat option"

text \<open>
  Lines 132-135: \<^verbatim>\<open>x or 50\<close> replaces a zero, the conditional a non-positive value.
  \<^verbatim>\<open>SamplingParams\<close> is vLLM's and is taken to build the parameters as given; were it
  to raise, lines 158-160 would count the call as failed before it reaches the guard.
\<close>

definition sampling_params :: "GenerateRequest \<Rightarrow> SamplingParams" where
  "sampling_params request =
     SamplingParams
       (if max_new_tokens request \<noteq> 0 then max_new_tokens request else 50)
       (if temperature request > 0 then temperature request else 0.8)"

text \<open>
  The snapshots the \<^verbatim>\<open>async for\<close> of this call takes before its wait ends, and how
  that wait ends: the engine's own sequence, cut short by the caller's cancellation.
\<close>

definition seen :: "engine \<Rightarrow> GenerateRequest \<Rightarrow> call \<Rightarrow> RequestOutput list \<times> ending" where
  "seen generate request c =
     (let (outs, e) = generate (prompt request) (sampling_params request)
                        (''req-'' @ request_hex c)
      in case cancel c of
           None \<Rightarrow> (outs, e)
         | Some k \<Rightarrow> if k \<le> length outs then (take k outs, Cancelled) else (outs, e))"

text \<open>\<^verbatim>\<open>out.outputs[0].text or ""\<close>.\<close>

definition full_text_of :: "CompletionOutput \<Rightarrow> string" where
  "full_text_of out0 = (case text_of out0 of None \<Rightarrow> [] | Some t \<Rightarrow> t)"

text \<open>\<^verbatim>\<open>f"vLLM error: {type(e).__name__}: {e}"\<close>.\<close>

definition details :: "exn \<Rightarrow> string" where
  "details e = ''vLLM error: '' @ type_name e @ '': '' @ message e"

subsection \<open>\<^verbatim>\<open>LLMService.Generate\<close>\<close>

text \<open>
  Lines 143-152, the body of the \<^verbatim>\<open>async for\<close>, on the local variables
  \<^verbatim>\<open>first_token\<close> and \<^verbatim>\<open>full_text\<close> and the shared state; \<open>i\<close> is the index of
  the snapshot at the head of the list.
\<close>

fun generate_loop ::
  "call \<Rightarrow> nat \<Rightarrow> RequestOutput list \<Rightarrow> bool \<times> string \<times> sys \<Rightarrow> bool \<times> string \<times> sys" where
  "generate_loop c i [] st = st"
| "generate_loop c i (out # rest) (first_token, full_text, s) =
     (case outputs out of
        [] \<Rightarrow> generate_loop c (Suc i) rest (first_token, full_text, s)
      | out0 # _ \<Rightarrow>
          (let full_text' = full_text_of out0
           in if \<not> first_token \<and> full_text' \<noteq> [] then
                generate_loop c (Suc i) rest
                  (True, full_text', s\<lparr>TTFT_HIST := TTFT_HIST s @ [(now c i - t0 c) * 1000]\<rparr>)
              else generate_loop c (Suc i) rest (first_token, full_text', s)))"

text \<open>
  The whole handler. \<open>None\<close>: the call stays suspended at line 78 for ever (no slot is
  free and nobody cancels). A bare \<^verbatim>\<open>return\<close> returns \<^verbatim>\<open>None\<close>.
\<close>

definition Generate ::
  "engine \<Rightarrow> GenerateRequest \<Rightarrow> call \<Rightarrow> sys \<Rightarrow> (GenerateReply option outcome \<times> sys) option" where
  "Generate generate request c s =
     (let s1 = guard_put (rpc_begin s)
      in case sem_acquire s1 of
           None \<Rightarrow>
             (case cancel c of
                None \<Rightarrow> None
              | Some k \<Rightarrow> Some (Return None, rpc_except Cancelled s1))
         | Some s2 \<Rightarrow>
             (let (outs, e) = seen generate request c;
                  (first_token, full_text, s3) =
                     generate_loop c 0 outs (False, [], guard_enter s2);
                  s4 = rpc_except e (guard_exit s3)
              in Some (case e of
                         Exhausted \<Rightarrow> Return (Some (GenerateReply full_text))
                       | Cancelled \<Rightarrow> Return None
                       | Raised x \<Rightarrow> Abort INTERNAL (details x),
                       s4)))"

subsection \<open>\<^verbatim>\<open>LLMService.StreamGenerate\<close>\<close>

text \<open>
  Lines 179-191 on \<^verbatim>\<open>last_len\<close>, \<^verbatim>\<open>first_token_sent\<close>, the messages yielded so far
  and the shared state.
\<close>

fun stream_loop ::
  "call \<Rightarrow> nat \<Rightarrow> RequestOutput list \<Rightarrow> nat \<times> bool \<times> Token list \<times> sys
     \<Rightarrow> nat \<times> bool \<times> Token list \<times> sys" where
  "stream_loop c i [] st = st"
| "stream_loop c i (out # rest) (last_len, first_token_sent, sent, s) =
     (case outputs out of
        [] \<Rightarrow> stream_loop c (Suc i) rest (last_len, first_token_sent, sent, s)
      | out0 # _ \<Rightarrow>
          (let full_text = full_text_of out0
           in if length full_text > last_len then
                (let s' = (if \<not> first_token_sent
                           then s\<lparr>TTFT_HIST := TTFT_HIST s @ [(now c i - t0 c) * 1000]\<rparr>
                           else s);
                     chunk = drop last_len full_text
                 in stream_loop c (Suc i) rest
                      (length full_text, True, sent @ [Token chunk False], s'))
              else stream_loop c (Suc i) rest (last_len, first_token_sent, sent, s)))"

text \<open>
  The whole handler: the messages it yields, in order, and how it ends. Falling off the
  end of the generator and the \<^verbatim>\<open>return\<close> of line 196 both end it without error.
\<close>

definition StreamGenerate ::
  "engine \<Rightarrow> GenerateRequest \<Rightarrow> call \<Rightarrow> sys \<Rightarrow> ((Token list \<times> unit outcome) \<times> sys) option" where
  "StreamGenerate generate request c s =
     (let s1 = guard_put (rpc_begin s)
      in case sem_acquire s1 of
           None \<Rightarrow>
             (case cancel c of
                None \<Rightarrow> None
              | Some k \<Rightarrow> Some (([], Return ()), rpc_except Cancelled s1))
         | Some s2 \<Rightarrow>
             (let (outs, e) = seen generate request c;
                  (last_len, first_token_sent, sent, s3) =
                     stream_loop c 0 outs (0, False, [], guard_enter s2);
                  s4 = rpc_except e (guard_exit s3)
              in Some (case e of
                         Exhausted \<Rightarrow> (sent @ [Token [] True], Return ())
                       | Cancelled \<Rightarrow> (sent, Return ())
                       | Raised x \<Rightarrow> (sent, Abort INTERNAL (details x)),
                       s4)))"

subsection \<open>The words of the specification about one call\<close>

text \<open>The texts the handlers read: snapshots without outputs are passed over.\<close>

fun snapshot_texts :: "RequestOutput list \<Rightarrow> string list" where
  "snapshot_texts [] = []"
| "snapshot_texts (out # rest) =
     (case outputs out of
        [] \<Rightarrow> snapshot_texts rest
      | out0 # _ \<Rightarrow> full_text_of out0 # snapshot_texts rest)"


text \<open>Cumulative snapshots: each one extends the one before it.\<close>

fun cumulative :: "string list \<Rightarrow> bool" where
  "cumulative [] = True"
| "cumulative [x] = True"
| "cumulative (x # y # rest) = (prefix x y \<and> cumulative (y # rest))"

text \<open>
  The emitter as the specification words it: a delta for each snapshot longer than the
  length at the last emitted one, the suffix beyond that length; nothing otherwise.
\<close>

fun deltas :: "nat \<Rightarrow> string list \<Rightarrow> string list" where
  "deltas n [] = []"
| "deltas n (x # rest) =
     (if n < length x then drop n x # deltas (length x) rest else deltas n rest)"

text \<open>The index of the first snapshot whose text is non-empty, counting from \<open>i\<close>.\<close>

fun first_output :: "nat \<Rightarrow> RequestOutput list \<Rightarrow> nat option" where
  "first_output i [] = None"
| "first_output i (out # rest) =
     (case outputs out of
        [] \<Rightarrow> first_output (Suc i) rest
      | out0 # _ \<Rightarrow> if full_text_of out0 \<noteq> [] then Some i else first_output (Suc i) rest)"

subsection \<open>The shared state around one admitted call\<close>

text \<open>
  The state at the \<^verbatim>\<open>yield\<close> of the guard for a call that found a free slot
  (lines 130-87 without suspension), the observations one call adds to the histogram,
  and the state when the handler has returned.
\<close>

definition after_entry :: "sys \<Rightarrow> sys" where
  "after_entry s = guard_enter ((guard_put (rpc_begin s))\<lparr>sem_value := sem_value s - 1\<rparr>)"

definition observation :: "call \<Rightarrow> RequestOutput list \<Rightarrow> real list" where
  "observation c outs =
     (case first_output 0 outs of None \<Rightarrow> [] | Some j \<Rightarrow> [(now c j - t0 c) * 1000])"


definition after_exit :: "call \<Rightarrow> RequestOutput list \<Rightarrow> ending \<Rightarrow> sys \<Rightarrow> sys" where
  "after_exit c outs e s =
     rpc_except e (guard_exit ((after_entry s)\<lparr>TTFT_HIST := TTFT_HIST s @ observation c outs\<rparr>))"

section \<open>The queue-depth monitor\<close>

text \<open>
  Python's \<^verbatim>\<open>float(n)\<close> for an integer: the nearest binary64 value, ties to the even
  significand, and \<^verbatim>\<open>OverflowError\<close> (here \<open>None\<close>) when that value would be infinite,
  that is from \<open>2^1024 - 2^970\<close> on. Below \<open>2^53\<close> the integer is kept as it is.
\<close>

definition float_of_int :: "int \<Rightarrow> real option" where
  "float_of_int n =
     (let a = \<bar>n\<bar>
      in if 2 ^ 1024 - 2 ^ 970 \<le> a then None
         else if a < 2 ^ 53 then Some (of_int n)
         else (let e = nat (bitlen a) - 53;
                   q = a div 2 ^ e;
                   r = a mod 2 ^ e;
                   q' = (if 2 ^ e < 2 * r \<or> (2 * r = 2 ^ e \<and> odd q) then q + 1 else q)
               in Some (of_int (sgn n * q' * 2 ^ e))))"

text \<open>
  What \<^verbatim>\<open>getattr(stats, "num_waiting_requests", None)\<close> may be: \<^verbatim>\<open>None\<close>, a
  \<^verbatim>\<open>bool\<close> (a subclass of \<^verbatim>\<open>int\<close>), an \<^verbatim>\<open>int\<close>, a \<^verbatim>\<open>float\<close>, or an
  object of any other type.
\<close>

datatype pyval = PyNone | PyBool bool | PyInt int | PyFloat float64 | PyOther

text \<open>
  What can be raised: an instance of \<^verbatim>\<open>Exception\<close>, or one of the
  \<^verbatim>\<open>BaseException\<close>s that are not \<^verbatim>\<open>Exception\<close>s, which
  \<^verbatim>\<open>except Exception\<close> lets through.
\<close>

datatype base_exception = CancelledError | KeyboardInterrupt | SystemExit | GeneratorExit

datatype raised = Exc exn | Base base_exception

text \<open>
  How \<^verbatim>\<open>await engine.get_model_executor_status()\<close> followed by the \<^verbatim>\<open>getattr\<close>
  ends: something is raised (by the engine, or \<^verbatim>\<open>CancelledError\<close> because the task
  is cancelled while it waits), or the attribute's value is there.
\<close>

datatype query = QueryRaises raised | QueryReturns pyval

text \<open>
  Lines 208-211, the \<^verbatim>\<open>try\<close> block, with what it raises as a value.
  \<^verbatim>\<open>Gauge.set(v)\<close> stores \<^verbatim>\<open>float(v)\<close>, so an integer too large for a float
  raises inside the block.
\<close>

fun monitor_try :: "query \<Rightarrow> sys \<Rightarrow> raised + sys" where
  "monitor_try (QueryRaises x) s = Inl x"
| "monitor_try (QueryReturns (PyBool b)) s =
     Inr (s\<lparr>VLLM_INTERNAL_WAITING := Finite (if b then 1 else 0)\<rparr>)"
| "monitor_try (QueryReturns (PyInt n)) s =
     (case float_of_int n of
        None \<Rightarrow> Inl (Exc (Exn ''OverflowError'' ''int too large to convert to float''))
      | Some x \<Rightarrow> Inr (s\<lparr>VLLM_INTERNAL_WAITING := Finite x\<rparr>))"
| "monitor_try (QueryReturns (PyFloat x)) s = Inr (s\<lparr>VLLM_INTERNAL_WAITING := x\<rparr>)"
| "monitor_try (QueryReturns v) s = Inr s"

text \<open>
  What the surroundings give one round of the loop: how the query ends, and how
  \<^verbatim>\<open>await asyncio.sleep(5)\<close> ends (\<open>None\<close>: after its five seconds; \<open>Some b\<close>: with
  \<open>b\<close> raised in it, as when the task is cancelled at shutdown).
\<close>

type_synonym round = "query \<times> base_exception option"

text \<open>
  Line 214, which no \<^verbatim>\<open>try\<close> covers. The second component of the state adds up the
  seconds the task has slept. \<open>Inl\<close>: the task ends with that exception, in that state.
\<close>

definition monitor_sleep ::
  "base_exception option \<Rightarrow> sys \<times> real \<Rightarrow> (base_exception \<times> sys \<times> real) + sys \<times> real" where
  "monitor_sleep sl st =
     (case sl of None \<Rightarrow> Inr (fst st, snd st + 5) | Some b \<Rightarrow> Inl (b, st))"

text \<open>
  Lines 207-214, one round: \<^verbatim>\<open>except Exception: pass\<close> catches the exceptions and
  nothing else, then the task sleeps.
\<close>

definition monitor_iteration ::
  "round \<Rightarrow> sys \<times> real \<Rightarrow> (base_exception \<times> sys \<times> real) + sys \<times> real" where
  "monitor_iteration rd st =
     (case monitor_try (fst rd) (fst st) of
        Inl (Base b) \<Rightarrow> Inl (b, st)
      | Inl (Exc e) \<Rightarrow> monitor_sleep (snd rd) st
      | Inr s1 \<Rightarrow> monitor_sleep (snd rd) (s1, snd st))"

text \<open>
  \<^verbatim>\<open>while True\<close>: round \<open>i\<close> is given \<open>answers i\<close>. \<open>Some (b, st)\<close>: the task has
  ended with \<open>b\<close> in state \<open>st\<close>; \<open>None\<close>: it runs for ever.
\<close>

partial_function (option) monitor_vllm_internal_queue ::
  "(nat \<Rightarrow> round) \<Rightarrow> nat \<Rightarrow> sys \<times> real \<Rightarrow> (base_exception \<times> sys \<times> real) option" where
  "monitor_vllm_internal_queue answers i st =
     (case monitor_iteration (answers i) st of
        Inl ended \<Rightarrow> Some ended
      | Inr st' \<Rightarrow> monitor_vllm_internal_queue answers (Suc i) st')"

text \<open>A round ends the task when a base exception comes out of the query or of the sleep.\<close>

fun ends :: "round \<Rightarrow> bool" where
  "ends (QueryRaises (Base b), sl) = True"
| "ends (q, Some b) = True"
| "ends (q, None) = False"

text \<open>The state when round \<open>n\<close> is about to start, if no round before it ended the task.\<close>

fun monitor_rounds :: "(nat \<Rightarrow> round) \<Rightarrow> nat \<Rightarrow> sys \<times> real \<Rightarrow> sys \<times> real" where
  "monitor_rounds answers 0 st = st"
| "monitor_rounds answers (Suc n) st =
     (case monitor_iteration (answers n) (monitor_rounds answers n st) of
        Inl (b, st') \<Rightarrow> st'
      | Inr st' \<Rightarrow> st')"

section \<open>Example inputs\<close>

text \<open>
  A request with both fields at their protobuf defaults, a call whose clock reads 10 at the
  start and \<open>11 + i\<close> at snapshot \<open>i\<close>, and engines: one that grows its text from nothing to
  \<^verbatim>\<open>Hello\<close> over five snapshots, one that raises after three of them, one that never
  produces a character, and one that yields nothing at all. For the monitor: an engine
  that answers 7, then raises, then has no such attribute; one whose second query is
  cancelled; and a task cancelled in its first sleep.
\<close>

definition request0 :: GenerateRequest where
  "request0 = \<lparr>prompt = ''Say hello'', max_new_tokens = 0, temperature = 0\<rparr>"

definition call0 :: call where
  "call0 = \<lparr>request_hex = ''0a1b'', t0 = 10, now = (\<lambda>i. 11 + real i), cancel = None\<rparr>"

definition outs0 :: "RequestOutput list" where
  "outs0 =
     [RequestOutput [],
      RequestOutput [CompletionOutput None],
      RequestOutput [CompletionOutput (Some ''He'')],
      RequestOutput [CompletionOutput (Some ''He'')],
      RequestOutput [CompletionOutput (Some ''Hello'')]]"

definition engine_ok :: engine where
  "engine_ok p ps rid = (outs0, Exhausted)"

definition engine_fail :: engine where
  "engine_fail p ps rid = (take 3 outs0, Raised (Exn ''RuntimeError'' ''CUDA out of memory''))"

definition engine_silent :: engine where
  "engine_silent p ps rid =
     ([RequestOutput [], RequestOutput [CompletionOutput None],
       RequestOutput [CompletionOutput (Some [])]], Exhausted)"

definition engine_empty :: engine where
  "engine_empty p ps rid = ([], Exhausted)"

definition answers0 :: "nat \<Rightarrow> round" where
  "answers0 i =
     (if i = 0 then (QueryReturns (PyInt 7), None)
      else if i = 1 then (QueryRaises (Exc (Exn ''AttributeError'' ''no such method'')), None)
      else (QueryReturns PyNone, None))"

definition answers_cancelled :: "nat \<Rightarrow> round" where
  "answers_cancelled i =
     (if i = 1 then (QueryRaises (Base CancelledError), None)
      else (QueryReturns (PyInt 7), None))"

definition answers_shutdown :: "nat \<Rightarrow> round" where
  "answers_shutdown i = (QueryReturns (PyInt 7), Some CancelledError)"

section \<open>Admission: the invariants\<close>

lemma count_list_append1:
  "count_list (xs @ [x]) y = count_list xs y + (if x = y then 1 else 0)"
  by (induction xs) auto

lemma count_list_update:
  "i < length xs \<Longrightarrow>
   count_list (xs[i := v]) y + (if xs ! i = y then 1 else 0)
     = count_list xs y + (if v = y then 1 else 0)"
proof (induction xs arbitrary: i)
  case Nil
  then show ?case by simp
next
  case (Cons x xs)
  show ?case
  proof (cases i)
    case 0
    then show ?thesis by simp
  next
    case (Suc j)
    with Cons.prems have "j < length xs" by simp
    from Cons.IH [OF this] Suc show ?thesis by (auto split: if_splits)
  qed
qed

lemma inv_start: "inv cap (start cap)"
  by (simp add: inv_def start_def init_def admitted_def waiting_def abandoned_def)

lemma rpc_except_fields [simp]:
  "sem_value (rpc_except e s) = sem_value s"
  "INFLIGHT (rpc_except e s) = INFLIGHT s"
  "admission_queue (rpc_except e s) = admission_queue s"
  "QUEUE_LENGTH (rpc_except e s) = QUEUE_LENGTH s"
  "REQ_TOTAL (rpc_except e s) = REQ_TOTAL s"
  "TTFT_HIST (rpc_except e s) = TTFT_HIST s"
  by (cases e; simp)+

lemma inv_Arrive: "inv cap (s, tasks) \<Longrightarrow> inv cap (step (s, tasks) Arrive)"
  by (simp add: inv_def admitted_def waiting_def abandoned_def guard_put_def rpc_begin_def
      Let_def count_list_append1)

lemma inv_Grant:
  assumes "inv cap (s, tasks)"
  shows "inv cap (step (s, tasks) (Grant t))"
proof (cases "t < length tasks \<and> tasks ! t = Queued \<and> 0 < sem_value s")
  case False
  with assms show ?thesis by (auto simp: sem_acquire_def)
next
  case True
  have a: "count_list (tasks[t := Admitted]) Admitted = count_list tasks Admitted + 1"
    using count_list_update [of t tasks Admitted Admitted] True by simp
  have q: "count_list (tasks[t := Admitted]) Queued + 1 = count_list tasks Queued"
    using count_list_update [of t tasks Admitted Queued] True by simp
  have b: "count_list (tasks[t := Admitted]) Abandoned = count_list tasks Abandoned"
    using count_list_update [of t tasks Admitted Abandoned] True by simp
  from q assms obtain x rest where qu: "admission_queue s = x # rest"
    by (cases "admission_queue s") (auto simp: inv_def waiting_def)
  from assms True a q b qu show ?thesis
    by (auto simp: inv_def admitted_def waiting_def abandoned_def sem_acquire_def
        guard_enter_def Let_def)
qed

lemma inv_End:
  assumes "inv cap (s, tasks)"
  shows "inv cap (step (s, tasks) (End t e))"
proof -
  consider (adm) "t < length tasks" "tasks ! t = Admitted"
    | (que) "t < length tasks" "tasks ! t = Queued" "e = Cancelled"
    | (other) "\<not> (t < length tasks \<and> tasks ! t = Admitted)"
        "\<not> (t < length tasks \<and> tasks ! t = Queued \<and> e = Cancelled)"
    by blast
  then show ?thesis
  proof cases
    case adm
    have a: "count_list (tasks[t := Done]) Admitted + 1 = count_list tasks Admitted"
      using count_list_update [of t tasks Done Admitted] adm by simp
    have q: "count_list (tasks[t := Done]) Queued = count_list tasks Queued"
      using count_list_update [of t tasks Done Queued] adm by simp
    have b: "count_list (tasks[t := Done]) Abandoned = count_list tasks Abandoned"
      using count_list_update [of t tasks Done Abandoned] adm by simp
    from assms adm a q b show ?thesis
      by (auto simp: inv_def admitted_def waiting_def abandoned_def guard_exit_def Let_def)
  next
    case que
    have a: "count_list (tasks[t := Abandoned]) Admitted = count_list tasks Admitted"
      using count_list_update [of t tasks Abandoned Admitted] que by simp
    have q: "count_list (tasks[t := Abandoned]) Queued + 1 = count_list tasks Queued"
      using count_list_update [of t tasks Abandoned Queued] que by simp
    have b: "count_list (tasks[t := Abandoned]) Abandoned = count_list tasks Abandoned + 1"
      using count_list_update [of t tasks Abandoned Abandoned] que by simp
    from assms que a q b show ?thesis
      by (auto simp: inv_def admitted_def waiting_def abandoned_def)
  next
    case other
    with assms show ?thesis by auto
  qed
qed

lemma inv_step: "inv cap sv \<Longrightarrow> inv cap (step sv ev)"
proof -
  assume h: "inv cap sv"
  obtain s tasks where sv: "sv = (s, tasks)" by (cases sv)
  show ?thesis
  proof (cases ev)
    case Arrive
    with h sv show ?thesis using inv_Arrive by simp
  next
    case (Grant t)
    with h sv show ?thesis using inv_Grant by simp
  next
    case (End t e)
    with h sv show ?thesis using inv_End by simp
  qed
qed

lemma inv_run: "inv cap sv \<Longrightarrow> inv cap (run sv evs)"
  unfolding run_def by (induction evs arbitrary: sv) (simp_all add: inv_step)

lemma writes_Grant_disabled:
  "\<not> (t < length tasks \<and> tasks ! t = Queued \<and> 0 < sem_value s) \<Longrightarrow>
   writes (s, tasks) (Grant t) = []"
  apply (simp only: writes.simps sem_acquire_def)
  apply (simp split: if_splits)
  done

lemma writes_last: "fst (step sv ev) = last (fst sv # writes sv ev)"
proof -
  obtain s tasks where sv: "sv = (s, tasks)" by (cases sv)
  show ?thesis unfolding sv
    by (cases ev)
       (auto simp: guard_put_def rpc_begin_def guard_enter_def guard_exit_def Let_def
          split: option.splits)
qed

lemma count_list_nth: "i < length xs \<Longrightarrow> 0 < count_list xs (xs ! i)"
  by (induction xs arbitrary: i) (auto simp: nth_Cons split: nat.splits)

lemma inv_writes:
  assumes "inv cap sv" and "s' \<in> set (writes sv ev)"
  shows "INFLIGHT s' \<le> int cap \<and> sem_value s' \<le> cap"
proof -
  obtain s tasks where sv: "sv = (s, tasks)" by (cases sv)
  from assms(1) have i: "sem_value s + count_list tasks Admitted = cap"
    "INFLIGHT s = int (count_list tasks Admitted)"
    by (simp_all add: inv_def sv admitted_def)
  show ?thesis
  proof (cases ev)
    case Arrive
    with assms(2) i show ?thesis by (auto simp: sv Let_def)
  next
    case (Grant t)
    show ?thesis
    proof (cases "t < length tasks \<and> tasks ! t = Queued \<and> 0 < sem_value s")
      case False
      from assms(2) have "s' \<in> set []"
        unfolding sv Grant writes_Grant_disabled [OF False] .
      then show ?thesis by simp
    next
      case True
      with i have lt: "count_list tasks Admitted < cap" by arith
      from assms(2) have "s' \<in> set (writes (s, tasks) (Grant t))"
        unfolding sv Grant .
      with True i lt show ?thesis
        by (cases "admission_queue s") (auto simp: sem_acquire_def Let_def)
    qed
  next
    case (End t e)
    show ?thesis
    proof (cases "t < length tasks \<and> tasks ! t = Admitted")
      case True
      with count_list_nth [of t tasks] have "0 < count_list tasks Admitted" by simp
      with assms(2) i End True show ?thesis by (auto simp: sv Let_def)
    next
      case False
      with assms(2) i End show ?thesis by (auto simp: sv split: if_splits)
    qed
  qed
qed

text \<open>
  C1. After any sequence of events from the start of the process, the calls that hold a
  slot, and with them the in-flight gauge, are at most the capacity the semaphore was
  created with. No event changes that capacity: free slots and held slots always add up
  to it. The bound also holds after each single write inside the next event, whose last
  write gives the state the event ends in.
\<close>

theorem inflight_le_capacity:
  "admitted (run (start MAX_INFLIGHT) evs) \<le> MAX_INFLIGHT \<and>
   INFLIGHT (fst (run (start MAX_INFLIGHT) evs)) \<le> int MAX_INFLIGHT \<and>
   INFLIGHT (fst (run (start MAX_INFLIGHT) evs)) = int (admitted (run (start MAX_INFLIGHT) evs)) \<and>
   sem_value (fst (run (start MAX_INFLIGHT) evs)) + admitted (run (start MAX_INFLIGHT) evs)
     = MAX_INFLIGHT \<and>
   (\<forall>s'\<in>set (writes (run (start MAX_INFLIGHT) evs) ev).
      INFLIGHT s' \<le> int MAX_INFLIGHT \<and> sem_value s' \<le> MAX_INFLIGHT) \<and>
   fst (step (run (start MAX_INFLIGHT) evs) ev)
     = last (fst (run (start MAX_INFLIGHT) evs) # writes (run (start MAX_INFLIGHT) evs) ev)"
proof -
  have i: "inv MAX_INFLIGHT (run (start MAX_INFLIGHT) evs)"
    by (rule inv_run [OF inv_start])
  from i inv_writes [OF i] show ?thesis by (auto simp: inv_def writes_last)
qed

theorem inflight_le_capacity_witness:
  "admitted (run (start 2) [Arrive, Arrive, Arrive, Grant 0, Grant 1, Grant 2]) = 2 \<and>
   admitted (run (start 2) [Arrive, Arrive, Arrive, Grant 0, Grant 1, Grant 2]) \<le> 2 \<and>
   INFLIGHT (fst (run (start 2) [Arrive, Arrive, Arrive, Grant 0, Grant 1, Grant 2])) \<le> 2 \<and>
   map INFLIGHT (writes (run (start 2) [Arrive, Arrive, Grant 0]) (Grant 1)) = [1, 1, 1, 2]"
  using inflight_le_capacity [of 2 "[Arrive, Arrive, Arrive, Grant 0, Grant 1, Grant 2]" Arrive]
    inflight_le_capacity [of 2 "[Arrive, Arrive, Grant 0]" "Grant 1"]
  by (simp add: run_def start_def init_def admitted_def guard_put_def rpc_begin_def
      sem_acquire_def guard_enter_def Let_def)

section \<open>Admission: release of the slot\<close>

lemma releases_step:
  "(if (\<exists>e. ev = End t e) \<and> sem_value (fst (step sv ev)) = sem_value (fst sv) + 1
    then 1 else 0) + finished sv t = finished (step sv ev) t"
proof -
  obtain s tasks where sv: "sv = (s, tasks)" by (cases sv)
  show ?thesis
  proof (cases ev)
    case Arrive
    with sv show ?thesis by (auto simp: finished_def nth_append)
  next
    case (Grant u)
    with sv show ?thesis
      by (auto simp: finished_def nth_list_update split: option.splits)
  next
    case (End u e)
    with sv show ?thesis
      by (auto simp: finished_def nth_list_update guard_exit_def Let_def)
  qed
qed

lemma releases_run:
  "releases sv evs t + finished sv t = finished (run sv evs) t"
proof (induction evs arbitrary: sv)
  case Nil
  show ?case by (simp add: run_def)
next
  case (Cons ev evs)
  have "releases (step sv ev) evs t + finished (step sv ev) t = finished (run (step sv ev) evs) t"
    by (rule Cons.IH)
  with releases_step [of ev t sv] show ?case by (simp add: run_def)
qed

text \<open>
  C2. Along any run from the start of the process, the semaphore is released for call
  \<open>t\<close> exactly once if the call has left its guard and not at all otherwise. An
  admitted call leaves the guard on every way out (the engine is exhausted, it raises, the
  caller cancels): each gives back one slot, lowers the in-flight gauge by one and finishes
  the guard. Leaving the same guard again, for whatever reason, changes nothing.
\<close>

theorem release_exactly_once:
  "releases (start MAX_INFLIGHT) evs t =
     (if t < length (snd (run (start MAX_INFLIGHT) evs)) \<and>
         snd (run (start MAX_INFLIGHT) evs) ! t = Done then 1 else 0) \<and>
   (t < length tasks \<and> tasks ! t = Admitted \<longrightarrow>
      sem_value (fst (step (s, tasks) (End t e))) = sem_value s + 1 \<and>
      INFLIGHT (fst (step (s, tasks) (End t e))) = INFLIGHT s - 1 \<and>
      snd (step (s, tasks) (End t e)) ! t = Done \<and>
      step (step (s, tasks) (End t e)) (End t e') = step (s, tasks) (End t e)) \<and>
   (t < length tasks \<and> tasks ! t = Done \<longrightarrow> step (s, tasks) (End t e) = (s, tasks))"
proof -
  have "finished (start MAX_INFLIGHT) t = 0"
    by (simp add: finished_def start_def)
  with releases_run [of "start MAX_INFLIGHT" evs t]
  have 1: "releases (start MAX_INFLIGHT) evs t = finished (run (start MAX_INFLIGHT) evs) t"
    by simp
  show ?thesis
    unfolding 1 by (auto simp: finished_def guard_exit_def Let_def)
qed

theorem release_exactly_once_witness:
  "releases (start 1) [Arrive, Grant 0, End 0 (Raised (Exn ''RuntimeError'' ''boom'')), End 0 Cancelled] 0 = 1 \<and>
   sem_value (fst (step (init 0, [Admitted]) (End 0 Cancelled))) = 1 \<and>
   step (step (init 0, [Admitted]) (End 0 Cancelled)) (End 0 Exhausted)
     = step (init 0, [Admitted]) (End 0 Cancelled) \<and>
   step (init 1, [Done]) (End 0 Exhausted) = (init 1, [Done])"
  using release_exactly_once [of 1 "[Arrive, Grant 0, End 0 (Raised (Exn ''RuntimeError'' ''boom'')), End 0 Cancelled]" 0 "[Admitted]" "init 0" Cancelled Exhausted]
    release_exactly_once [of 1 "[]" 0 "[Done]" "init 1" Exhausted Exhausted]
  by (simp add: run_def start_def init_def guard_put_def rpc_begin_def
      sem_acquire_def guard_enter_def guard_exit_def Let_def)

section \<open>Admission: the queue-length gauge\<close>

text \<open>
  C6. Capacity 1. Call 0 is admitted, call 1 arrives and waits, and its caller cancels:
  the item call 1 put on the queue stays there, so the gauge reads 1 with nobody waiting.
  It still reads 1 after call 0 has finished and a third call has come and been admitted.
\<close>

theorem queue_length_after_cancelled_wait:
  "QUEUE_LENGTH (fst (run (start 1) [Arrive, Grant 0, Arrive, End 1 Cancelled])) = 1 \<and>
   waiting (run (start 1) [Arrive, Grant 0, Arrive, End 1 Cancelled]) = 0 \<and>
   QUEUE_LENGTH (fst (run (start 1)
      [Arrive, Grant 0, Arrive, End 1 Cancelled, End 0 Exhausted, Arrive, Grant 2])) = 1 \<and>
   waiting (run (start 1)
      [Arrive, Grant 0, Arrive, End 1 Cancelled, End 0 Exhausted, Arrive, Grant 2]) = 0"
  by (simp add: run_def start_def init_def waiting_def guard_put_def rpc_begin_def
      sem_acquire_def guard_enter_def guard_exit_def Let_def)

section \<open>The loops of the two handlers\<close>

lemma generate_loop_eq:
  "generate_loop c i outs (ft, acc, s) =
     (ft \<or> first_output i outs \<noteq> None,
      last (acc # snapshot_texts outs),
      s\<lparr>TTFT_HIST := TTFT_HIST s @
          (if ft then [] else
             case first_output i outs of None \<Rightarrow> [] | Some j \<Rightarrow> [(now c j - t0 c) * 1000])\<rparr>)"
  by (induction outs arbitrary: i ft acc s)
     (auto simp: Let_def split: list.splits option.splits)

lemma stream_loop_sent:
  "fst (snd (snd (stream_loop c i outs (n, fts, sent, s)))) =
     sent @ map (\<lambda>d. Token d False) (deltas n (snapshot_texts outs))"
  by (induction outs arbitrary: i n fts sent s)
     (auto simp: Let_def split: list.splits)

lemma stream_loop_sys_sent:
  "snd (snd (snd (stream_loop c i outs (n, True, sent, s)))) = s"
  by (induction outs arbitrary: i n sent s)
     (auto simp: Let_def split: list.splits)

lemma stream_loop_sys:
  "snd (snd (snd (stream_loop c i outs (0, False, sent, s)))) =
     s\<lparr>TTFT_HIST := TTFT_HIST s @
          (case first_output i outs of None \<Rightarrow> [] | Some j \<Rightarrow> [(now c j - t0 c) * 1000])\<rparr>"
  by (induction outs arbitrary: i sent s)
     (auto simp: Let_def stream_loop_sys_sent split: list.splits)

section \<open>The handlers in closed form\<close>

lemma acquire_after_put:
  "sem_acquire (guard_put (rpc_begin s)) =
     (if 0 < sem_value s
      then Some ((guard_put (rpc_begin s))\<lparr>sem_value := sem_value s - 1\<rparr>) else None)"
  by (simp add: sem_acquire_def guard_put_def rpc_begin_def Let_def)

lemma after_entry_TTFT: "TTFT_HIST (after_entry s) = TTFT_HIST s"
  by (simp add: after_entry_def guard_enter_def guard_put_def rpc_begin_def Let_def
      split: list.splits)

lemma after_exit_sem: "0 < sem_value s \<Longrightarrow> sem_value (after_exit c outs e s) = sem_value s"
  by (cases e; simp add: after_exit_def after_entry_def guard_exit_def guard_enter_def
      guard_put_def rpc_begin_def Let_def split: list.splits)

lemma after_exit_fields:
  "INFLIGHT (after_exit c outs e s) = INFLIGHT s"
  "TTFT_HIST (after_exit c outs e s) = TTFT_HIST s @ observation c outs"
  "REQ_FAILED (after_exit c outs e s) = REQ_FAILED s + (case e of Raised x \<Rightarrow> 1 | _ \<Rightarrow> 0)"
  by (cases e; simp add: after_exit_def after_entry_def guard_exit_def guard_enter_def
      guard_put_def rpc_begin_def Let_def split: list.splits)+

lemma enter_after_acquire:
  "0 < sem_value s \<Longrightarrow>
   sem_acquire (guard_put (rpc_begin s)) =
     Some ((guard_put (rpc_begin s))\<lparr>sem_value := sem_value s - 1\<rparr>) \<and>
   guard_enter ((guard_put (rpc_begin s))\<lparr>sem_value := sem_value s - 1\<rparr>) = after_entry s"
  by (simp add: acquire_after_put after_entry_def)

lemma Generate_admitted:
  assumes "0 < sem_value s" and "seen generate request c = (outs, e)"
  shows "Generate generate request c s =
     Some (case e of
             Exhausted \<Rightarrow> Return (Some (GenerateReply (last ([] # snapshot_texts outs))))
           | Cancelled \<Rightarrow> Return None
           | Raised x \<Rightarrow> Abort INTERNAL (details x),
           after_exit c outs e s)"
proof -
  note acq = enter_after_acquire [OF assms(1)]
  have loop: "generate_loop c 0 outs (False, [], after_entry s) =
      (first_output 0 outs \<noteq> None, last ([] # snapshot_texts outs),
       (after_entry s)\<lparr>TTFT_HIST := TTFT_HIST s @ observation c outs\<rparr>)"
    by (simp add: generate_loop_eq after_entry_TTFT observation_def)
  show ?thesis
    by (simp only: Generate_def Let_def acq option.case assms(2) prod.case loop
        after_exit_def)
qed

lemma StreamGenerate_admitted:
  assumes "0 < sem_value s" and "seen generate request c = (outs, e)"
  shows "StreamGenerate generate request c s =
     Some ((map (\<lambda>d. Token d False) (deltas 0 (snapshot_texts outs))
              @ (if e = Exhausted then [Token [] True] else []),
            case e of Raised x \<Rightarrow> Abort INTERNAL (details x) | _ \<Rightarrow> Return ()),
           after_exit c outs e s)"
proof -
  obtain n fts sent s3 where
    l: "stream_loop c 0 outs (0, False, [], after_entry s) = (n, fts, sent, s3)"
    by (cases "stream_loop c 0 outs (0, False, [], after_entry s)") auto
  have sent: "sent = map (\<lambda>d. Token d False) (deltas 0 (snapshot_texts outs))"
    using stream_loop_sent [of c 0 outs 0 False "[]" "after_entry s"] l by simp
  have s3: "s3 = (after_entry s)\<lparr>TTFT_HIST := TTFT_HIST s @ observation c outs\<rparr>"
    using stream_loop_sys [of c 0 outs "[]" "after_entry s"] l
    by (simp add: after_entry_TTFT observation_def)
  note acq = enter_after_acquire [OF assms(1)]
  have "StreamGenerate generate request c s =
     Some (case e of
             Exhausted \<Rightarrow> (sent @ [Token [] True], Return ())
           | Cancelled \<Rightarrow> (sent, Return ())
           | Raised x \<Rightarrow> (sent, Abort INTERNAL (details x)),
           rpc_except e (guard_exit s3))"
    by (simp only: StreamGenerate_def Let_def acq option.case assms(2) prod.case l)
  then show ?thesis
    by (cases e) (simp_all add: sent s3 after_exit_def)
qed

lemma Generate_blocked:
  assumes "sem_value s = 0"
  shows "Generate generate request c s =
     (case cancel c of None \<Rightarrow> None | Some k \<Rightarrow> Some (Return None, guard_put (rpc_begin s)))"
  using assms by (simp add: Generate_def acquire_after_put Let_def split: option.splits)

lemma StreamGenerate_blocked:
  assumes "sem_value s = 0"
  shows "StreamGenerate generate request c s =
     (case cancel c of None \<Rightarrow> None
      | Some k \<Rightarrow> Some (([], Return ()), guard_put (rpc_begin s)))"
  using assms by (simp add: StreamGenerate_def acquire_after_put Let_def split: option.splits)

lemma put_fields:
  "sem_value (guard_put (rpc_begin s)) = sem_value s"
  "INFLIGHT (guard_put (rpc_begin s)) = INFLIGHT s"
  "TTFT_HIST (guard_put (rpc_begin s)) = TTFT_HIST s"
  "REQ_FAILED (guard_put (rpc_begin s)) = REQ_FAILED s"
  by (simp_all add: guard_put_def rpc_begin_def Let_def)

lemmas example_defs =
  request0_def call0_def outs0_def engine_ok_def engine_fail_def engine_silent_def
  engine_empty_def

section \<open>Facts about the words of the specification\<close>

lemma deltas_nonempty: "d \<in> set (deltas n xs) \<Longrightarrow> d \<noteq> []"
  by (induction xs arbitrary: n) (auto split: if_splits)

lemma first_output_None:
  "(first_output i outs = None) = (\<forall>t\<in>set (snapshot_texts outs). t = [])"
  by (induction outs arbitrary: i) (auto split: list.splits)


lemma last_all_empty: "\<forall>t\<in>set xs. t = [] \<Longrightarrow> last ([] # xs) = []"
  by (induction xs) auto

lemma cumulative_concat:
  "cumulative (acc # xs) \<Longrightarrow> acc @ concat (deltas (length acc) xs) = last (acc # xs)"
proof (induction xs arbitrary: acc)
  case Nil
  then show ?case by simp
next
  case (Cons x xs)
  from Cons.prems have p: "prefix acc x" and c: "cumulative (x # xs)" by simp_all
  show ?case
  proof (cases "length acc < length x")
    case True
    from p have "acc @ drop (length acc) x = x" by (auto simp: prefix_def)
    with True Cons.IH [OF c] show ?thesis by (simp flip: append_assoc)
  next
    case False
    with p have "x = acc" by (auto simp: prefix_def)
    with False Cons.IH [OF c] show ?thesis by simp
  qed
qed

lemma cumulative_Nil: "cumulative xs \<Longrightarrow> cumulative ([] # xs)"
  by (cases xs) simp_all

lemma seen_cancelled:
  "cancel c = Some k \<Longrightarrow>
   k \<le> length (fst (generate (prompt request) (sampling_params request) (''req-'' @ request_hex c))) \<Longrightarrow>
   seen generate request c =
     (take k (fst (generate (prompt request) (sampling_params request) (''req-'' @ request_hex c))),
      Cancelled)"
  by (simp add: seen_def split_def)

lemma seen_not_cancelled:
  "snd (seen generate request c) \<noteq> Cancelled \<Longrightarrow>
   seen generate request c =
     generate (prompt request) (sampling_params request) (''req-'' @ request_hex c)"
  by (auto simp: seen_def split_def Let_def split: option.splits if_splits)

lemma filter_last_deltas [simp]:
  "filter is_last (map (\<lambda>d. Token d False) ds) = []"
  "filter (\<lambda>m. \<not> is_last m) (map (\<lambda>d. Token d False) ds) = map (\<lambda>d. Token d False) ds"
  "map token_text (map (\<lambda>d. Token d False) ds) = ds"
  by (induction ds) auto

section \<open>What a returned call tells about its run\<close>

lemma Generate_cases:
  assumes "Generate generate request c s = Some (r, s')"
  obtains (blocked) k where "sem_value s = 0" "cancel c = Some k" "r = Return None"
      "s' = guard_put (rpc_begin s)"
    | (admitted) "0 < sem_value s"
      "r = (case snd (seen generate request c) of
              Exhausted \<Rightarrow> Return (Some (GenerateReply
                  (last ([] # snapshot_texts (fst (seen generate request c))))))
            | Cancelled \<Rightarrow> Return None
            | Raised x \<Rightarrow> Abort INTERNAL (details x))"
      "s' = after_exit c (fst (seen generate request c)) (snd (seen generate request c)) s"
proof (cases "0 < sem_value s")
  case True
  from Generate_admitted [OF True, of generate request c "fst (seen generate request c)"
      "snd (seen generate request c)"] assms
  show ?thesis using True by (intro admitted) auto
next
  case False
  then have z: "sem_value s = 0" by simp
  from Generate_blocked [OF z, of generate request c] assms
  show ?thesis using z by (cases "cancel c") (auto intro: blocked)
qed

lemma StreamGenerate_cases:
  assumes "StreamGenerate generate request c s = Some ((toks, r), s')"
  obtains (blocked) k where "sem_value s = 0" "cancel c = Some k" "toks = []" "r = Return ()"
      "s' = guard_put (rpc_begin s)"
    | (admitted) "0 < sem_value s"
      "toks = map (\<lambda>d. Token d False) (deltas 0 (snapshot_texts (fst (seen generate request c))))
               @ (if snd (seen generate request c) = Exhausted then [Token [] True] else [])"
      "r = (case snd (seen generate request c) of
              Raised x \<Rightarrow> Abort INTERNAL (details x) | _ \<Rightarrow> Return ())"
      "s' = after_exit c (fst (seen generate request c)) (snd (seen generate request c)) s"
proof (cases "0 < sem_value s")
  case True
  from StreamGenerate_admitted [OF True, of generate request c "fst (seen generate request c)"
      "snd (seen generate request c)"] assms
  show ?thesis using True by (intro admitted) auto
next
  case False
  then have z: "sem_value s = 0" by simp
  from StreamGenerate_blocked [OF z, of generate request c] assms
  show ?thesis using z by (cases "cancel c") (auto intro: blocked)
qed

section \<open>The streaming emitter\<close>

text \<open>
  C4. For a call that holds a slot and takes the snapshots \<open>outs\<close> from the engine,
  \<^verbatim>\<open>StreamGenerate\<close> yields exactly the deltas of the specification, in order, each
  with \<^verbatim>\<open>is_last=False\<close>: one for every snapshot whose text is longer than the
  text at the last message, namely the suffix beyond that length, and nothing for a
  snapshot that did not grow. No delta is empty. When the engine's sequence is exhausted
  one message with empty text and \<^verbatim>\<open>is_last=True\<close> follows, and only then.
\<close>

theorem stream_emits_deltas:
  assumes "0 < sem_value s" and "seen generate request c = (outs, e)"
  shows "map_option (fst \<circ> fst) (StreamGenerate generate request c s) =
           Some (map (\<lambda>d. Token d False) (deltas 0 (snapshot_texts outs))
                 @ (if e = Exhausted then [Token [] True] else [])) \<and>
         (\<forall>d\<in>set (deltas 0 (snapshot_texts outs)). d \<noteq> [])"
  using StreamGenerate_admitted [OF assms] deltas_nonempty by auto

theorem stream_emits_deltas_witness:
  "map_option (fst \<circ> fst) (StreamGenerate engine_ok request0 call0 (init 1)) =
     Some [Token ''He'' False, Token ''llo'' False, Token [] True]"
proof -
  have h1: "0 < sem_value (init 1)" by (simp add: init_def)
  have h2: "seen engine_ok request0 call0 = (outs0, Exhausted)"
    by (simp add: seen_def engine_ok_def call0_def)
  from stream_emits_deltas [OF h1 h2] show ?thesis
    by (simp add: outs0_def full_text_of_def)
qed

section \<open>A run without output\<close>

text \<open>
  C10. If no snapshot the engine yields has a non-empty text (no snapshots, snapshots
  without outputs, texts that are \<^verbatim>\<open>None\<close> or empty) and the sequence is
  exhausted, \<^verbatim>\<open>Generate\<close> returns a reply whose text is the empty string and
  leaves the histogram as it was.
\<close>

theorem no_output_reply_empty:
  assumes "0 < sem_value s" and "seen generate request c = (outs, Exhausted)"
    and "\<forall>t\<in>set (snapshot_texts outs). t = []"
  shows "\<exists>s'. Generate generate request c s = Some (Return (Some (GenerateReply [])), s') \<and>
              TTFT_HIST s' = TTFT_HIST s"
proof -
  from assms(3) have "first_output 0 outs = None" by (simp add: first_output_None)
  then have "observation c outs = []" by (simp add: observation_def)
  with Generate_admitted [OF assms(1,2)] last_all_empty [OF assms(3)] assms(1)
  show ?thesis by (simp add: after_exit_fields)
qed

theorem no_output_reply_empty_witness:
  "map_option fst (Generate engine_silent request0 call0 (init 1)) =
     Some (Return (Some (GenerateReply [])))"
proof -
  have h1: "0 < sem_value (init 1)" by (simp add: init_def)
  have h2: "seen engine_silent request0 call0 =
      ([RequestOutput [], RequestOutput [CompletionOutput None],
        RequestOutput [CompletionOutput (Some [])]], Exhausted)"
    by (simp add: seen_def engine_silent_def call0_def)
  have h3: "\<forall>t\<in>set (snapshot_texts [RequestOutput [], RequestOutput [CompletionOutput None],
        RequestOutput [CompletionOutput (Some [])]]). t = []"
    by (simp add: full_text_of_def)
  from no_output_reply_empty [OF h1 h2 h3] show ?thesis by auto
qed

section \<open>Cancelled streams\<close>

text \<open>
  C9. If the caller cancels a \<^verbatim>\<open>StreamGenerate\<close> call before the engine's sequence
  is exhausted (after \<open>k\<close> snapshots, \<open>k\<close> at most their number), no message of the
  stream has \<^verbatim>\<open>is_last=True\<close> and the handler ends without an error. A stream that
  does hold such a message saw the engine's sequence exhausted, holds exactly one, and
  ends with it.
\<close>

theorem cancelled_stream_has_no_last:
  assumes "StreamGenerate generate request c s = Some ((toks, r), s')"
  shows "(cancel c = Some k \<and>
          k \<le> length (fst (generate (prompt request) (sampling_params request)
                               (''req-'' @ request_hex c))) \<longrightarrow>
            filter is_last toks = [] \<and> r = Return ()) \<and>
         (filter is_last toks \<noteq> [] \<longrightarrow>
            snd (seen generate request c) = Exhausted \<and> filter is_last toks = [Token [] True]
            \<and> last toks = Token [] True)"
  using assms
proof (cases rule: StreamGenerate_cases)
  case (blocked k)
  then show ?thesis by simp
next
  case admitted
  show ?thesis
  proof (intro conjI impI)
    assume "cancel c = Some k \<and>
          k \<le> length (fst (generate (prompt request) (sampling_params request)
                               (''req-'' @ request_hex c)))"
    then have "snd (seen generate request c) = Cancelled" by (simp add: seen_cancelled)
    with admitted show "filter is_last toks = []" "r = Return ()" by simp_all
  next
    assume "filter is_last toks \<noteq> []"
    with admitted(2) show e: "snd (seen generate request c) = Exhausted"
      by (auto split: if_splits)
    with admitted(2) show "filter is_last toks = [Token [] True]" "last toks = Token [] True"
      by simp_all
  qed
qed

theorem cancelled_stream_has_no_last_witness:
  "map_option fst (StreamGenerate engine_ok request0 (call0\<lparr>cancel := Some 3\<rparr>) (init 1)) =
     Some ([Token ''He'' False], Return ()) \<and>
   filter is_last [Token ''He'' False] = []"
proof -
  let ?c = "call0\<lparr>cancel := Some 3\<rparr>"
  let ?res = "StreamGenerate engine_ok request0 ?c (init 1)"
  have h1: "0 < sem_value (init 1)" by (simp add: init_def)
  have h2: "seen engine_ok request0 ?c = (take 3 outs0, Cancelled)"
    by (simp add: seen_def engine_ok_def call0_def outs0_def)
  have h: "?res = Some (([Token ''He'' False], Return ()),
                        after_exit ?c (take 3 outs0) Cancelled (init 1))"
    unfolding StreamGenerate_admitted [OF h1 h2] by (simp add: outs0_def full_text_of_def)
  from cancelled_stream_has_no_last [OF h, of 3]
  have "filter is_last [Token ''He'' False] = []"
    by (simp add: example_defs)
  then show ?thesis unfolding h by simp
qed

section \<open>Failures and cancellations\<close>

lemma seen_engine:
  assumes "generate (prompt request) (sampling_params request) (''req-'' @ request_hex c) = (outs, e)"
  shows "seen generate request c =
     (case cancel c of
        None \<Rightarrow> (outs, e)
      | Some k \<Rightarrow> if k \<le> length outs then (take k outs, Cancelled) else (outs, e))"
  using assms by (simp add: seen_def)

text \<open>
  C7. Let the engine answer the call with the snapshots \<open>outs\<close> and the ending \<open>e\<close>.
  \<^item> If the call holds a slot, the caller does not cancel before the engine's sequence is
    over and the engine raises, both handlers return: the call is aborted with
    \<^verbatim>\<open>StatusCode.INTERNAL\<close> and a message made of the exception's class name and
    text, and the failure counter has gone up by exactly one.
  \<^item> If the caller cancels, while the call waits for a slot or before the engine's
    sequence is over, both handlers return without an error and the failure counter
    is unchanged.
  \<^item> If the engine's sequence is exhausted and nobody cancels, both handlers return
    normally and the failure counter is unchanged.
  \<^item> In all three cases the free slots and the in-flight gauge are back at their values
    before the call.
  \<^item> Whenever a handler returns, the failure counter has gone up by one if the call was
    aborted and not at all otherwise.
\<close>

theorem failure_counted_iff_raised:
  assumes eng: "generate (prompt request) (sampling_params request) (''req-'' @ request_hex c)
                  = (outs, e)"
  shows
  "(0 < sem_value s \<and> (\<forall>k. cancel c = Some k \<longrightarrow> length outs < k) \<and> e = Raised x \<longrightarrow>
      (\<exists>s'. Generate generate request c s =
               Some (Abort INTERNAL (''vLLM error: '' @ type_name x @ '': '' @ message x), s') \<and>
             REQ_FAILED s' = REQ_FAILED s + 1 \<and>
             sem_value s' = sem_value s \<and> INFLIGHT s' = INFLIGHT s) \<and>
      (\<exists>toks s'. StreamGenerate generate request c s =
               Some ((toks, Abort INTERNAL (''vLLM error: '' @ type_name x @ '': '' @ message x)), s') \<and>
             REQ_FAILED s' = REQ_FAILED s + 1 \<and>
             sem_value s' = sem_value s \<and> INFLIGHT s' = INFLIGHT s)) \<and>
   (cancel c = Some k \<and> (sem_value s = 0 \<or> k \<le> length outs) \<longrightarrow>
      (\<exists>s'. Generate generate request c s = Some (Return None, s') \<and>
             REQ_FAILED s' = REQ_FAILED s \<and>
             sem_value s' = sem_value s \<and> INFLIGHT s' = INFLIGHT s) \<and>
      (\<exists>toks s'. StreamGenerate generate request c s = Some ((toks, Return ()), s') \<and>
             REQ_FAILED s' = REQ_FAILED s \<and>
             sem_value s' = sem_value s \<and> INFLIGHT s' = INFLIGHT s)) \<and>
   (0 < sem_value s \<and> (\<forall>k. cancel c = Some k \<longrightarrow> length outs < k) \<and> e = Exhausted \<longrightarrow>
      (\<exists>reply s'. Generate generate request c s = Some (Return (Some reply), s') \<and>
             REQ_FAILED s' = REQ_FAILED s \<and>
             sem_value s' = sem_value s \<and> INFLIGHT s' = INFLIGHT s) \<and>
      (\<exists>toks s'. StreamGenerate generate request c s = Some ((toks, Return ()), s') \<and>
             REQ_FAILED s' = REQ_FAILED s \<and>
             sem_value s' = sem_value s \<and> INFLIGHT s' = INFLIGHT s)) \<and>
   (Generate generate request c s = Some (r, s1) \<longrightarrow>
      REQ_FAILED s1 = REQ_FAILED s + (case r of Abort code msg \<Rightarrow> 1 | Return v \<Rightarrow> 0)) \<and>
   (StreamGenerate generate request c s = Some ((toks2, r2), s2) \<longrightarrow>
      REQ_FAILED s2 = REQ_FAILED s + (case r2 of Abort code msg \<Rightarrow> 1 | Return v \<Rightarrow> 0))"
proof -
  note se = seen_engine [where generate = generate and request = request and c = c, OF eng]
  show ?thesis
  proof (intro conjI impI)
  assume h: "0 < sem_value s \<and> (\<forall>k. cancel c = Some k \<longrightarrow> length outs < k) \<and> e = Raised x"
  then have pos: "0 < sem_value s" and sn: "seen generate request c = (outs, Raised x)"
    by (auto simp: se split: option.splits)
  show "\<exists>s'. Generate generate request c s =
               Some (Abort INTERNAL (''vLLM error: '' @ type_name x @ '': '' @ message x), s') \<and>
             REQ_FAILED s' = REQ_FAILED s + 1 \<and>
             sem_value s' = sem_value s \<and> INFLIGHT s' = INFLIGHT s"
    unfolding Generate_admitted [OF pos sn]
    by (simp add: details_def after_exit_fields after_exit_sem [OF pos])
  show "\<exists>toks s'. StreamGenerate generate request c s =
               Some ((toks, Abort INTERNAL (''vLLM error: '' @ type_name x @ '': '' @ message x)), s') \<and>
             REQ_FAILED s' = REQ_FAILED s + 1 \<and>
             sem_value s' = sem_value s \<and> INFLIGHT s' = INFLIGHT s"
    unfolding StreamGenerate_admitted [OF pos sn]
    by (simp add: details_def after_exit_fields after_exit_sem [OF pos])
next
  assume h: "cancel c = Some k \<and> (sem_value s = 0 \<or> k \<le> length outs)"
  show "\<exists>s'. Generate generate request c s = Some (Return None, s') \<and>
             REQ_FAILED s' = REQ_FAILED s \<and>
             sem_value s' = sem_value s \<and> INFLIGHT s' = INFLIGHT s"
  proof (cases "sem_value s = 0")
    case True
    with h show ?thesis
      unfolding Generate_blocked [OF True] by (simp add: put_fields)
  next
    case False
    then have pos: "0 < sem_value s" by simp
    from h False have sn: "seen generate request c = (take k outs, Cancelled)"
      by (simp add: se)
    show ?thesis
      unfolding Generate_admitted [OF pos sn]
      by (simp add: after_exit_fields after_exit_sem [OF pos])
  qed
  show "\<exists>toks s'. StreamGenerate generate request c s = Some ((toks, Return ()), s') \<and>
             REQ_FAILED s' = REQ_FAILED s \<and>
             sem_value s' = sem_value s \<and> INFLIGHT s' = INFLIGHT s"
  proof (cases "sem_value s = 0")
    case True
    with h show ?thesis
      unfolding StreamGenerate_blocked [OF True] by (simp add: put_fields)
  next
    case False
    then have pos: "0 < sem_value s" by simp
    from h False have sn: "seen generate request c = (take k outs, Cancelled)"
      by (simp add: se)
    show ?thesis
      unfolding StreamGenerate_admitted [OF pos sn]
      by (simp add: after_exit_fields after_exit_sem [OF pos])
  qed
next
  assume h: "0 < sem_value s \<and> (\<forall>k. cancel c = Some k \<longrightarrow> length outs < k) \<and> e = Exhausted"
  then have pos: "0 < sem_value s" and sn: "seen generate request c = (outs, Exhausted)"
    by (auto simp: se split: option.splits)
  show "\<exists>reply s'. Generate generate request c s = Some (Return (Some reply), s') \<and>
             REQ_FAILED s' = REQ_FAILED s \<and>
             sem_value s' = sem_value s \<and> INFLIGHT s' = INFLIGHT s"
    unfolding Generate_admitted [OF pos sn]
    by (simp add: after_exit_fields after_exit_sem [OF pos])
  show "\<exists>toks s'. StreamGenerate generate request c s = Some ((toks, Return ()), s') \<and>
             REQ_FAILED s' = REQ_FAILED s \<and>
             sem_value s' = sem_value s \<and> INFLIGHT s' = INFLIGHT s"
    unfolding StreamGenerate_admitted [OF pos sn]
    by (simp add: after_exit_fields after_exit_sem [OF pos])
next
  assume "Generate generate request c s = Some (r, s1)"
  then show "REQ_FAILED s1 = REQ_FAILED s + (case r of Abort code msg \<Rightarrow> 1 | Return v \<Rightarrow> 0)"
    by (cases rule: Generate_cases)
       (auto simp: put_fields after_exit_fields split: ending.splits)
next
  assume "StreamGenerate generate request c s = Some ((toks2, r2), s2)"
  then show "REQ_FAILED s2 = REQ_FAILED s + (case r2 of Abort code msg \<Rightarrow> 1 | Return v \<Rightarrow> 0)"
    by (cases rule: StreamGenerate_cases)
       (auto simp: put_fields after_exit_fields split: ending.splits)
qed
qed

theorem failure_counted_iff_raised_witness:
  "map_option fst (Generate engine_fail request0 call0 (init 1)) =
     Some (Abort INTERNAL ''vLLM error: RuntimeError: CUDA out of memory'') \<and>
   map_option (REQ_FAILED \<circ> snd) (Generate engine_fail request0 call0 (init 1)) = Some 1 \<and>
   map_option (sem_value \<circ> snd) (Generate engine_fail request0 call0 (init 1)) = Some 1 \<and>
   map_option (snd \<circ> fst) (StreamGenerate engine_fail request0 call0 (init 1)) =
     Some (Abort INTERNAL ''vLLM error: RuntimeError: CUDA out of memory'') \<and>
   map_option (REQ_FAILED \<circ> snd) (StreamGenerate engine_fail request0 call0 (init 1)) = Some 1 \<and>
   map_option fst (Generate engine_fail request0 (call0\<lparr>cancel := Some 2\<rparr>) (init 1)) =
     Some (Return None) \<and>
   map_option (REQ_FAILED \<circ> snd)
     (Generate engine_fail request0 (call0\<lparr>cancel := Some 2\<rparr>) (init 1)) = Some 0 \<and>
   map_option (REQ_FAILED \<circ> snd)
     (StreamGenerate engine_fail request0 (call0\<lparr>cancel := Some 2\<rparr>) (init 0)) = Some 0"
proof -
  let ?x = "Exn ''RuntimeError'' ''CUDA out of memory''"
  let ?c = "call0\<lparr>cancel := Some 2\<rparr>"
  have eng: "engine_fail (prompt request0) (sampling_params request0) (''req-'' @ request_hex call0)
      = (take 3 outs0, Raised ?x)"
    by (simp add: engine_fail_def)
  have eng': "engine_fail (prompt request0) (sampling_params request0) (''req-'' @ request_hex ?c)
      = (take 3 outs0, Raised ?x)"
    by (simp add: engine_fail_def)
  have h1: "0 < sem_value (init 1) \<and>
      (\<forall>k. cancel call0 = Some k \<longrightarrow> length (take 3 outs0) < k) \<and> Raised ?x = Raised ?x"
    by (simp add: init_def call0_def)
  have h2: "cancel ?c = Some 2 \<and> (sem_value (init 1) = 0 \<or> 2 \<le> length (take 3 outs0))"
    by (simp add: outs0_def)
  have h3: "cancel ?c = Some 2 \<and> (sem_value (init 0) = 0 \<or> 2 \<le> length (take 3 outs0))"
    by (simp add: outs0_def)
  from failure_counted_iff_raised [where generate = engine_fail and request = request0
      and c = call0 and s = "init 1" and x = ?x, OF eng] h1
  obtain s' toks s'' where
    g: "Generate engine_fail request0 call0 (init 1) =
      Some (Abort INTERNAL (''vLLM error: '' @ type_name ?x @ '': '' @ message ?x), s')"
      "REQ_FAILED s' = REQ_FAILED (init 1) + 1" "sem_value s' = sem_value (init 1)"
    and st: "StreamGenerate engine_fail request0 call0 (init 1) =
      Some ((toks, Abort INTERNAL (''vLLM error: '' @ type_name ?x @ '': '' @ message ?x)), s'')"
      "REQ_FAILED s'' = REQ_FAILED (init 1) + 1"
    by blast
  from failure_counted_iff_raised [where generate = engine_fail and request = request0
      and c = ?c and s = "init 1" and k = 2, OF eng'] h2
  obtain u where
    gc: "Generate engine_fail request0 ?c (init 1) = Some (Return None, u)"
      "REQ_FAILED u = REQ_FAILED (init 1)"
    by blast
  from failure_counted_iff_raised [where generate = engine_fail and request = request0
      and c = ?c and s = "init 0" and k = 2, OF eng'] h3
  obtain toks' u' where
    sc: "StreamGenerate engine_fail request0 ?c (init 0) = Some ((toks', Return ()), u')"
      "REQ_FAILED u' = REQ_FAILED (init 0)"
    by blast
  show ?thesis
    unfolding g(1) st(1) gc(1) sc(1)
    by (simp add: g(2,3) st(2) gc(2) sc(2) init_def)
qed

section \<open>Time to first output\<close>




section \<open>Streaming against the unary call\<close>

text \<open>
  C3. Let the engine answer the same prompt and sampling parameters with the same
  sequence whatever the request id, and let the texts of that sequence be cumulative.
  If \<^verbatim>\<open>Generate\<close> returns a reply and \<^verbatim>\<open>StreamGenerate\<close>, for the same
  request, runs up to its final message, then the texts of the non-final messages,
  concatenated, are the text of the reply.
\<close>

theorem stream_concat_equals_generate:
  assumes det: "\<And>rid rid'. generate (prompt request) (sampling_params request) rid =
                  generate (prompt request) (sampling_params request) rid'"
    and cum: "cumulative (snapshot_texts
                (fst (generate (prompt request) (sampling_params request)
                        (''req-'' @ request_hex c))))"
    and gen: "Generate generate request c s = Some (Return (Some reply), s')"
    and str: "StreamGenerate generate request c2 s2 = Some ((toks, r), s2')"
    and fin: "filter is_last toks \<noteq> []"
  shows "concat (map token_text (filter (\<lambda>m. \<not> is_last m) toks)) = reply_text reply"
proof -
  let ?run = "generate (prompt request) (sampling_params request) (''req-'' @ request_hex c)"
  let ?texts = "snapshot_texts (fst ?run)"
  from gen have ge: "snd (seen generate request c) = Exhausted"
    and reply: "reply = GenerateReply (last ([] # snapshot_texts (fst (seen generate request c))))"
    by (cases rule: Generate_cases; auto split: ending.splits)+
  from ge have "seen generate request c = ?run"
    by (intro seen_not_cancelled) simp
  with reply have reply': "reply_text reply = last ([] # ?texts)" by simp
  from str fin have se: "snd (seen generate request c2) = Exhausted"
    and toks: "toks = map (\<lambda>d. Token d False)
                 (deltas 0 (snapshot_texts (fst (seen generate request c2)))) @ [Token [] True]"
    by (cases rule: StreamGenerate_cases; auto split: if_splits)+
  from se have "seen generate request c2 =
      generate (prompt request) (sampling_params request) (''req-'' @ request_hex c2)"
    by (intro seen_not_cancelled) simp
  with det have "seen generate request c2 = ?run" by simp
  with toks have "concat (map token_text (filter (\<lambda>m. \<not> is_last m) toks)) =
      concat (deltas 0 ?texts)" by (simp add: comp_def)
  also from cumulative_concat [OF cumulative_Nil [OF cum]]
  have "concat (deltas 0 ?texts) = last ([] # ?texts)" by simp
  finally show ?thesis using reply' by simp
qed

theorem stream_concat_equals_generate_witness:
  "map_option fst (Generate engine_ok request0 call0 (init 1)) =
     Some (Return (Some (GenerateReply ''Hello''))) \<and>
   map_option (fst \<circ> fst) (StreamGenerate engine_ok request0 (call0\<lparr>request_hex := ''ffff''\<rparr>) (init 2)) =
     Some [Token ''He'' False, Token ''llo'' False, Token [] True] \<and>
   concat (map token_text (filter (\<lambda>m. \<not> is_last m)
      [Token ''He'' False, Token ''llo'' False, Token [] True])) = ''Hello''"
proof -
  let ?c2 = "call0\<lparr>request_hex := ''ffff''\<rparr>"
  have h1: "0 < sem_value (init 1)" and h1': "0 < sem_value (init 2)"
    by (simp_all add: init_def)
  have h2: "seen engine_ok request0 call0 = (outs0, Exhausted)"
    and h2': "seen engine_ok request0 ?c2 = (outs0, Exhausted)"
    by (simp_all add: seen_def engine_ok_def call0_def)
  have det: "\<And>rid rid'. engine_ok (prompt request0) (sampling_params request0) rid =
                  engine_ok (prompt request0) (sampling_params request0) rid'"
    by (simp add: engine_ok_def)
  have cum: "cumulative (snapshot_texts
                (fst (engine_ok (prompt request0) (sampling_params request0)
                        (''req-'' @ request_hex call0))))"
    by (simp add: engine_ok_def outs0_def full_text_of_def)
  have hg: "Generate engine_ok request0 call0 (init 1) =
      Some (Return (Some (GenerateReply ''Hello'')), after_exit call0 outs0 Exhausted (init 1))"
    unfolding Generate_admitted [OF h1 h2] by (simp add: outs0_def full_text_of_def)
  have hs: "StreamGenerate engine_ok request0 ?c2 (init 2) =
      Some (([Token ''He'' False, Token ''llo'' False, Token [] True], Return ()),
            after_exit ?c2 outs0 Exhausted (init 2))"
    unfolding StreamGenerate_admitted [OF h1' h2'] by (simp add: outs0_def full_text_of_def)
  have fin: "filter is_last [Token ''He'' False, Token ''llo'' False, Token [] True] \<noteq> []"
    by simp
  from stream_concat_equals_generate [OF det cum hg hs fin]
  show ?thesis unfolding hg hs by simp
qed

section \<open>Rounds of the monitor\<close>

lemma monitor_iteration_goes_on:
  "\<not> ends (q, sl) \<Longrightarrow>
   monitor_iteration (q, sl) (s, z) =
     Inr (case q of
            QueryReturns (PyBool b) \<Rightarrow> s\<lparr>VLLM_INTERNAL_WAITING := Finite (if b then 1 else 0)\<rparr>
          | QueryReturns (PyInt k) \<Rightarrow>
              (case float_of_int k of
                 None \<Rightarrow> s
               | Some x \<Rightarrow> s\<lparr>VLLM_INTERNAL_WAITING := Finite x\<rparr>)
          | QueryReturns (PyFloat x) \<Rightarrow> s\<lparr>VLLM_INTERNAL_WAITING := x\<rparr>
          | _ \<Rightarrow> s,
          z + 5)"
  by (cases "(q, sl)" rule: ends.cases)
     (auto simp: monitor_iteration_def monitor_sleep_def
        split: query.splits pyval.splits raised.splits option.splits)

lemma monitor_iteration_Inr: "\<not> ends rd \<Longrightarrow> \<exists>st'. monitor_iteration rd st = Inr st'"
  using monitor_iteration_goes_on [of "fst rd" "snd rd" "fst st" "snd st"] by auto

lemma monitor_iteration_Inl: "ends rd \<Longrightarrow> \<exists>b st'. monitor_iteration rd st = Inl (b, st')"
  by (cases rd rule: ends.cases)
     (auto simp: monitor_iteration_def monitor_sleep_def
        split: sum.splits raised.splits option.splits)

lemma monitor_ended:
  assumes "monitor_vllm_internal_queue answers i st = Some y"
  shows "\<exists>j\<ge>i. ends (answers j)"
proof -
  have step: "\<exists>j\<ge>i. ends (answers j)"
    if ih: "\<And>answers i st y. loop answers i st = Some y \<Longrightarrow> \<exists>j\<ge>i. ends (answers j)"
    and eq: "(case monitor_iteration (answers i) st of
                Inl ended \<Rightarrow> Some ended
              | Inr st' \<Rightarrow> loop answers (Suc i) st') = Some y"
    for loop answers i st y
  proof (cases "ends (answers i)")
    case True
    then show ?thesis by blast
  next
    case False
    from monitor_iteration_Inr [OF False, of st] obtain st' where
      "monitor_iteration (answers i) st = Inr st'" ..
    with eq have "loop answers (Suc i) st' = Some y" by simp
    from ih [OF this] obtain j where "Suc i \<le> j" "ends (answers j)" by blast
    then show ?thesis by (intro exI [of _ j]) simp
  qed
  show ?thesis
    by (rule monitor_vllm_internal_queue.raw_induct
        [where P = "\<lambda>answers i st y. \<exists>j\<ge>i. ends (answers j)", OF step assms])
qed

lemma monitor_unroll:
  "\<forall>j<n. \<not> ends (answers j) \<Longrightarrow>
   monitor_vllm_internal_queue answers 0 st =
     monitor_vllm_internal_queue answers n (monitor_rounds answers n st)"
proof (induction n)
  case 0
  show ?case by simp
next
  case (Suc n)
  from Suc.prems have ne: "\<not> ends (answers n)" and before: "\<forall>j<n. \<not> ends (answers j)"
    by simp_all
  from monitor_iteration_Inr [OF ne, of "monitor_rounds answers n st"] obtain st' where
    it: "monitor_iteration (answers n) (monitor_rounds answers n st) = Inr st'" ..
  have "monitor_vllm_internal_queue answers n (monitor_rounds answers n st) =
      monitor_vllm_internal_queue answers (Suc n) st'"
    by (subst monitor_vllm_internal_queue.simps) (simp add: it)
  with Suc.IH [OF before] it show ?case by simp
qed

lemma monitor_slept:
  "\<forall>j<n. \<not> ends (answers j) \<Longrightarrow> snd (monitor_rounds answers n st) = snd st + 5 * real n"
proof (induction n)
  case 0
  show ?case by simp
next
  case (Suc n)
  from Suc.prems have ne: "\<not> ends (answers n)" and before: "\<forall>j<n. \<not> ends (answers j)"
    by simp_all
  from monitor_iteration_goes_on [of "fst (answers n)" "snd (answers n)"
      "fst (monitor_rounds answers n st)" "snd (monitor_rounds answers n st)"] ne
  have "snd (monitor_rounds answers (Suc n) st) = snd (monitor_rounds answers n st) + 5"
    by simp
  with Suc.IH [OF before] show ?case by (simp add: algebra_simps)
qed

section \<open>The monitor\<close>

text \<open>
  C8 as stated does not hold. When the second query is cancelled, which
  \<^verbatim>\<open>except Exception\<close> does not catch, the task ends there with the gauge at 7 and one
  sleep behind it; cancelled in its first sleep, it ends without having slept. And a
  backlog of \<open>2^1024\<close> is numeric but is not published: \<^verbatim>\<open>float()\<close> overflows inside
  the \<^verbatim>\<open>try\<close> and the gauge keeps its value.
\<close>

theorem monitor_ends_when_interrupted:
  "monitor_vllm_internal_queue answers_cancelled 0 (init 1, 0) =
     Some (CancelledError, (init 1)\<lparr>VLLM_INTERNAL_WAITING := Finite 7\<rparr>, 5) \<and>
   monitor_vllm_internal_queue answers_shutdown 0 (init 1, 0) =
     Some (CancelledError, (init 1)\<lparr>VLLM_INTERNAL_WAITING := Finite 7\<rparr>, 0) \<and>
   monitor_iteration (QueryReturns (PyInt (2 ^ 1024)), None) (init 1, 0) = Inr (init 1, 5)"
proof (intro conjI)
  have r0: "monitor_iteration (answers_cancelled 0) (init 1, 0) =
      Inr ((init 1)\<lparr>VLLM_INTERNAL_WAITING := Finite 7\<rparr>, 5)"
    by (simp add: answers_cancelled_def monitor_iteration_def monitor_sleep_def float_of_int_def)
  have r1: "monitor_iteration (answers_cancelled (Suc 0))
        ((init 1)\<lparr>VLLM_INTERNAL_WAITING := Finite 7\<rparr>, 5) =
      Inl (CancelledError, (init 1)\<lparr>VLLM_INTERNAL_WAITING := Finite 7\<rparr>, 5)"
    by (simp add: answers_cancelled_def monitor_iteration_def)
  show "monitor_vllm_internal_queue answers_cancelled 0 (init 1, 0) =
     Some (CancelledError, (init 1)\<lparr>VLLM_INTERNAL_WAITING := Finite 7\<rparr>, 5)"
    by (subst monitor_vllm_internal_queue.simps, simp only: r0 sum.case,
        subst monitor_vllm_internal_queue.simps, simp only: r1 sum.case)
  have s0: "monitor_iteration (answers_shutdown 0) (init 1, 0) =
      Inl (CancelledError, (init 1)\<lparr>VLLM_INTERNAL_WAITING := Finite 7\<rparr>, 0)"
    by (simp add: answers_shutdown_def monitor_iteration_def monitor_sleep_def float_of_int_def)
  show "monitor_vllm_internal_queue answers_shutdown 0 (init 1, 0) =
     Some (CancelledError, (init 1)\<lparr>VLLM_INTERNAL_WAITING := Finite 7\<rparr>, 0)"
    by (subst monitor_vllm_internal_queue.simps, simp only: s0 sum.case)
  show "monitor_iteration (QueryReturns (PyInt (2 ^ 1024)), None) (init 1, 0) = Inr (init 1, 5)"
    by (simp add: monitor_iteration_def monitor_sleep_def float_of_int_def)
qed

text \<open>
  C8, amended. The monitor task runs for ever if no round ends it, that is if no query
  raises a \<^verbatim>\<open>BaseException\<close> outside \<^verbatim>\<open>Exception\<close> and no sleep is cancelled.
  As long as no round has ended it, it reaches round \<open>n\<close> in the state \<open>n\<close> rounds
  produce, having slept 5 seconds in each; the first round that ends it makes the task
  end with that round's exception and state. A round that does not end the task sets
  the gauge to \<^verbatim>\<open>float(v)\<close> when the query gives a bool, an int that converts, or a
  float; it leaves the gauge alone when the query raises an exception, gives anything
  else, or gives an int too large for a float; then it sleeps 5 seconds. An int below
  \<open>2^53\<close> in size is published as it is.
\<close>

theorem monitor_runs_until_interrupted:
  "((\<forall>j. \<not> ends (answers j)) \<longrightarrow> monitor_vllm_internal_queue answers 0 st = None) \<and>
   ((\<forall>j<n. \<not> ends (answers j)) \<longrightarrow>
      monitor_vllm_internal_queue answers 0 st =
        monitor_vllm_internal_queue answers n (monitor_rounds answers n st) \<and>
      snd (monitor_rounds answers n st) = snd st + 5 * real n) \<and>
   ((\<forall>j<n. \<not> ends (answers j)) \<and> ends (answers n) \<longrightarrow>
      (\<exists>b st'. monitor_iteration (answers n) (monitor_rounds answers n st) = Inl (b, st') \<and>
                monitor_vllm_internal_queue answers 0 st = Some (b, st'))) \<and>
   (\<not> ends (q, sl) \<longrightarrow>
      monitor_iteration (q, sl) (s, z) =
        Inr (case q of
               QueryReturns (PyBool b) \<Rightarrow> s\<lparr>VLLM_INTERNAL_WAITING := Finite (if b then 1 else 0)\<rparr>
             | QueryReturns (PyInt k) \<Rightarrow>
                 (case float_of_int k of
                    None \<Rightarrow> s
                  | Some x \<Rightarrow> s\<lparr>VLLM_INTERNAL_WAITING := Finite x\<rparr>)
             | QueryReturns (PyFloat x) \<Rightarrow> s\<lparr>VLLM_INTERNAL_WAITING := x\<rparr>
             | _ \<Rightarrow> s,
             z + 5)) \<and>
   (\<bar>k\<bar> < 2 ^ 53 \<longrightarrow> float_of_int k = Some (of_int k))"
proof (intro conjI impI)
  assume never: "\<forall>j. \<not> ends (answers j)"
  show "monitor_vllm_internal_queue answers 0 st = None"
  proof (cases "monitor_vllm_internal_queue answers 0 st")
    case None
    then show ?thesis .
  next
    case (Some y)
    from monitor_ended [OF Some] never show ?thesis by blast
  qed
next
  assume before: "\<forall>j<n. \<not> ends (answers j)"
  show "monitor_vllm_internal_queue answers 0 st =
        monitor_vllm_internal_queue answers n (monitor_rounds answers n st)"
    by (rule monitor_unroll [OF before])
  show "snd (monitor_rounds answers n st) = snd st + 5 * real n"
    by (rule monitor_slept [OF before])
next
  assume h: "(\<forall>j<n. \<not> ends (answers j)) \<and> ends (answers n)"
  from monitor_iteration_Inl [of "answers n" "monitor_rounds answers n st"] h obtain b st' where
    it: "monitor_iteration (answers n) (monitor_rounds answers n st) = Inl (b, st')" by blast
  have "monitor_vllm_internal_queue answers n (monitor_rounds answers n st) = Some (b, st')"
    by (subst monitor_vllm_internal_queue.simps) (simp add: it)
  with monitor_unroll [of n answers st] h it
  show "\<exists>b st'. monitor_iteration (answers n) (monitor_rounds answers n st) = Inl (b, st') \<and>
                monitor_vllm_internal_queue answers 0 st = Some (b, st')"
    by simp
next
  assume "\<not> ends (q, sl)"
  then show "monitor_iteration (q, sl) (s, z) =
        Inr (case q of
               QueryReturns (PyBool b) \<Rightarrow> s\<lparr>VLLM_INTERNAL_WAITING := Finite (if b then 1 else 0)\<rparr>
             | QueryReturns (PyInt k) \<Rightarrow>
                 (case float_of_int k of
                    None \<Rightarrow> s
                  | Some x \<Rightarrow> s\<lparr>VLLM_INTERNAL_WAITING := Finite x\<rparr>)
             | QueryReturns (PyFloat x) \<Rightarrow> s\<lparr>VLLM_INTERNAL_WAITING := x\<rparr>
             | _ \<Rightarrow> s,
             z + 5)"
    by (rule monitor_iteration_goes_on)
next
  assume "\<bar>k\<bar> < 2 ^ 53"
  then show "float_of_int k = Some (of_int k)"
    by (simp add: float_of_int_def)
qed

theorem monitor_runs_until_interrupted_witness:
  "monitor_vllm_internal_queue answers0 0 (init 1, 0) = None \<and>
   snd (monitor_rounds answers0 (Suc (Suc (Suc 0))) (init 1, 0)) = 15 \<and>
   VLLM_INTERNAL_WAITING (fst (monitor_rounds answers0 (Suc (Suc (Suc 0))) (init 1, 0))) = Finite 7 \<and>
   monitor_vllm_internal_queue answers_cancelled 0 (init 1, 0) =
     Some (CancelledError, (init 1)\<lparr>VLLM_INTERNAL_WAITING := Finite 7\<rparr>, 5) \<and>
   float_of_int 7 = Some 7"
proof -
  have never: "\<forall>j. \<not> ends (answers0 j)" by (simp add: answers0_def)
  have before: "\<forall>j<Suc 0. \<not> ends (answers_cancelled j)" by (simp add: answers_cancelled_def)
  have last: "ends (answers_cancelled (Suc 0))" by (simp add: answers_cancelled_def)
  have small: "\<bar>7::int\<bar> < 2 ^ 53" by simp
  have r: "monitor_rounds answers_cancelled (Suc 0) (init 1, 0) =
      ((init 1)\<lparr>VLLM_INTERNAL_WAITING := Finite 7\<rparr>, 5)"
    by (simp add: answers_cancelled_def monitor_iteration_def monitor_sleep_def float_of_int_def)
  have it: "monitor_iteration (answers_cancelled (Suc 0))
        ((init 1)\<lparr>VLLM_INTERNAL_WAITING := Finite 7\<rparr>, 5) =
      Inl (CancelledError, (init 1)\<lparr>VLLM_INTERNAL_WAITING := Finite 7\<rparr>, 5)"
    by (simp add: answers_cancelled_def monitor_iteration_def)
  from monitor_runs_until_interrupted [of answers0 "(init 1, 0)" "Suc (Suc (Suc 0))"
      "QueryReturns PyNone" None "init 1" 0 7] never small
  have a: "monitor_vllm_internal_queue answers0 0 (init 1, 0) = None"
    "snd (monitor_rounds answers0 (Suc (Suc (Suc 0))) (init 1, 0)) = snd (init 1, 0::real) + 5 * real (Suc (Suc (Suc 0)))"
    "float_of_int 7 = Some (of_int 7)"
    by simp_all
  from monitor_runs_until_interrupted [of answers_cancelled "(init 1, 0)" "Suc 0"
      "QueryReturns PyNone" None "init 1" 0 7] before last
  have b: "monitor_vllm_internal_queue answers_cancelled 0 (init 1, 0) =
     Some (CancelledError, (init 1)\<lparr>VLLM_INTERNAL_WAITING := Finite 7\<rparr>, 5)"
    unfolding r it by auto
  have g: "VLLM_INTERNAL_WAITING (fst (monitor_rounds answers0 (Suc (Suc (Suc 0))) (init 1, 0))) = Finite 7"
    by (simp add: answers0_def monitor_iteration_def monitor_sleep_def float_of_int_def)
  from a b g show ?thesis by simp
qed

end
